theory Spec2Isabelle
  imports Main "HOL-Library.Sublist"
begin

section \<open>Python strings\<close>

text \<open>
  A Python \<open>str\<close> is modelled as a \<open>string\<close>: a list of characters with code points
  0 to 255. That is exactly the range of \<open>chr(ch)\<close> in the keystroke handler of
  \<open>curses_main\<close>. Code points above 255 are outside the model.
\<close>

definition isspace :: "char \<Rightarrow> bool" where
  \<comment> \<open>The characters \<open>str.strip()\<close> removes, among code points 0 to 255: tab, line feed,
      vertical tab, form feed, carriage return, the separators 0x1C to 0x1F, space,
      NEL (0x85) and the no-break space (0xA0).\<close>
  "isspace c \<longleftrightarrow> of_char c \<in> {9, 10, 11, 12, 13, 28, 29, 30, 31, 32, 133, 160 :: nat}"

definition strip :: "string \<Rightarrow> string" where
  \<comment> \<open>\<open>s.strip()\<close>: leading and trailing whitespace removed.\<close>
  "strip s = rev (dropWhile isspace (rev (dropWhile isspace s)))"

section \<open>The libraries\<close>

text \<open>
  BeautifulSoup, \<open>datetime\<close> and the case mapping of \<open>str.upper\<close> are libraries, not
  code of the program; the model takes them as parameters. \<open>BeautifulSoup L msg_html\<close>
  stands for parsing one fragment and the three \<open>select_one\<close> calls on it: it raises, or
  gives the three elements looked up. An element is given by its text nodes in document
  order; the \<open>time\<close> element is given by its \<open>title\<close> attribute, \<open>None\<close> when it has
  none. \<open>fromisoformat L\<close> is \<open>datetime.fromisoformat\<close>, with \<open>None\<close> for a string it
  rejects. \<open>upper_latin1 L c\<close> is \<open>c.upper()\<close> for a character with code point 128 to
  255: one character or several.
\<close>

datatype error = Error string

record soup =
  username_elem :: "string list option"
  time_elem :: "string option option"
  content_elem :: "string list option"

record datetime =
  hour :: nat
  minute :: nat
  second :: nat

record library =
  BeautifulSoup :: "string \<Rightarrow> error + soup"
  fromisoformat :: "string \<Rightarrow> datetime option"
  upper_latin1 :: "char \<Rightarrow> string"

text \<open>
  A library for the examples. It reads the five fragments of \<open>example_pages\<close>, written
  as the page writes a chat entry; it rejects the fragment \<open>rejected\<close>, a marked
  section with an unknown keyword (the text of the error stands for \<open>str(e)\<close>); any
  other text it reads as markup with none of the three elements, as it reads \<open><li>\<close>.
  It parses one timestamp. Its table gives the upper case of the characters 128 to 255 as
  \<open>str.upper\<close> does, but for 0xB5 and 0xFF, whose upper case lies above 255 and so is
  no string of the model; no example uses these two.
\<close>

definition li :: "string \<Rightarrow> string \<Rightarrow> string \<Rightarrow> string" where
  "li author title body =
     ''<li><header><address><a><span>'' @ author @ ''</span></a></address><time title=''
     @ [CHR 0x22] @ title @ [CHR 0x22] @ ''></time></header>''
     @ ''<section class=chatbox-message__content>'' @ body @ ''</section></li>''"

definition example_pages :: "(string \<times> soup) list" where
  "example_pages =
     map (\<lambda>(a, t, b). (li a t b,
            \<lparr>username_elem = Some [a], time_elem = Some (Some t), content_elem = Some [b]\<rparr>))
       [(''alice'', ''2024-01-01T10:00:00'', ''[b]hello[/b] world''),
        (''bob'', ''2024-01-01T10:00:00'', ''[b]hello[/b] world''),
        (''carol'', ''2024-01-01T10:00:00'', ''HELLO world''),
        (''dave'', '' soon '', ''hi''),
        (''erin'', ''2024-01-01T10:00:00'', ''  '')]"

definition rejected :: string where
  "rejected = ''<![foo bar]>''"

definition example_library :: library where
  "example_library =
     \<lparr>BeautifulSoup =
        (\<lambda>html. if html = rejected then Inl (Error ''markup rejected by the parser'')
                else case map_of example_pages html of
                       Some sp \<Rightarrow> Inr sp
                     | None \<Rightarrow> Inr \<lparr>username_elem = None, time_elem = None,
                                    content_elem = None\<rparr>),
      fromisoformat = (\<lambda>s. if s = ''2024-01-01T10:00:00''
                            then Some \<lparr>hour = 10, minute = 0, second = 0\<rparr> else None),
      upper_latin1 =
        (\<lambda>c. let n = of_char c :: nat in
              if 224 \<le> n \<and> n \<le> 254 \<and> n \<noteq> 247 then [char_of (n - 32)]
              else if n = 223 then ''SS'' else [c])\<rparr>"

definition alice :: string where "alice = li ''alice'' ''2024-01-01T10:00:00'' ''[b]hello[/b] world''"
definition bob :: string where "bob = li ''bob'' ''2024-01-01T10:00:00'' ''[b]hello[/b] world''"
definition carol :: string where "carol = li ''carol'' ''2024-01-01T10:00:00'' ''HELLO world''"
definition dave :: string where "dave = li ''dave'' '' soon '' ''hi''"
definition erin :: string where "erin = li ''erin'' ''2024-01-01T10:00:00'' ''  ''"

section \<open>The keystroke step of \<open>curses_main\<close>\<close>

text \<open>
  \<open>curses.KEY_ENTER\<close> and \<open>curses.KEY_BACKSPACE\<close> are constants of the curses library;
  they are parameters of the model (343 and 263 in ncurses).
\<close>

record keys =
  KEY_ENTER :: int
  KEY_BACKSPACE :: int

text \<open>
  The state of the loop the keystroke step touches: the local \<open>input_buffer\<close>, and the
  calls of \<open>send_message\<close> made so far, each with the message it was given.
\<close>

record ui =
  input_buffer :: string
  send_calls :: "string list"

definition send_message :: "string \<Rightarrow> ui \<Rightarrow> ui" where
  \<comment> \<open>\<open>send_message(driver, message)\<close>, lines 181 to 192. Its whole body is inside
      \<open>try ... except Exception\<close>, so the call always returns to the loop; what the
      browser does with the message is outside the model.\<close>
  "send_message message st = st\<lparr>send_calls := send_calls st @ [message]\<rparr>"

definition curses_main_key :: "keys \<Rightarrow> int \<Rightarrow> ui \<Rightarrow> ui" where
  \<comment> \<open>Lines 282 to 291 of \<open>curses_main\<close>; \<open>ch\<close> is the value of \<open>input_win.getch()\<close>,
      which is \<open>-1\<close> when no key is pending.\<close>
  "curses_main_key K ch st =
     (if ch \<noteq> - 1 then
        if ch \<in> {KEY_ENTER K, 10, 13} then
          (if strip (input_buffer st) \<noteq> [] then
             (send_message (input_buffer st) st)\<lparr>input_buffer := []\<rparr>
           else st)
        else if ch \<in> {KEY_BACKSPACE K, 127} then
          st\<lparr>input_buffer := butlast (input_buffer st)\<rparr>
        else if 0 \<le> ch \<and> ch \<le> 255 then
          st\<lparr>input_buffer := input_buffer st @ [char_of ch]\<rparr>
        else st
      else st)"

definition ncurses :: keys where
  \<comment> \<open>The key codes of ncurses, used where a concrete keyboard is needed.\<close>
  "ncurses = \<lparr>KEY_ENTER = 343, KEY_BACKSPACE = 263\<rparr>"

definition isprintable :: "int \<Rightarrow> bool" where
  \<comment> \<open>The reading of "printable" for a key code, following \<open>str.isprintable\<close> on code
      points below 256: the ASCII range 0x20 to 0x7E and 0xA1 to 0xFF without the soft
      hyphen 0xAD. Not part of the source; used to state what the handler does not check.\<close>
  "isprintable ch \<longleftrightarrow> (32 \<le> ch \<and> ch \<le> 126) \<or> (161 \<le> ch \<and> ch \<le> 255 \<and> ch \<noteq> 173)"

section \<open>Properties of the keystroke step\<close>

lemma isspace_space: "isspace CHR '' ''"
  by (simp add: isspace_def)

lemma strip_two_spaces: "strip ''  '' = []"
  by (simp add: strip_def isspace_def)

text \<open>
  C10. Enter or Return on a buffer that is not empty but holds only whitespace changes
  nothing: the buffer keeps its content, no send is made, and pressing the key again any
  number of times still leaves the state as it was.
\<close>

theorem enter_on_whitespace_keeps_buffer:
  assumes "ch \<in> {KEY_ENTER K, 10, 13}" and "ch \<noteq> - 1"
    and "input_buffer st \<noteq> []" and "strip (input_buffer st) = []"
  shows "curses_main_key K ch st = st \<and> (curses_main_key K ch ^^ n) st = st"
proof -
  have one: "curses_main_key K ch st = st"
    using assms by (simp add: curses_main_key_def)
  have "(curses_main_key K ch ^^ n) st = st"
    by (induction n) (simp_all add: one)
  with one show ?thesis by simp
qed

theorem enter_on_whitespace_keeps_buffer_witness:
  "curses_main_key ncurses 10 \<lparr>input_buffer = ''  '', send_calls = []\<rparr>
     = \<lparr>input_buffer = ''  '', send_calls = []\<rparr>
   \<and> (curses_main_key ncurses 10 ^^ 3) \<lparr>input_buffer = ''  '', send_calls = []\<rparr>
     = \<lparr>input_buffer = ''  '', send_calls = []\<rparr>"
  using enter_on_whitespace_keeps_buffer
    [of 10 ncurses "\<lparr>input_buffer = ''  '', send_calls = []\<rparr>" 3]
  by (simp add: strip_two_spaces)

lemma strip_hi: "strip '' hi '' = ''hi''"
  by (simp add: strip_def isspace_def)

text \<open>
  C4. When Enter or Return is read: if the buffer is not empty after trimming,
  \<open>send_message\<close> is called exactly once, with the buffer as it is (not trimmed), and
  the buffer is then reset to the empty string; if the buffer is empty or holds only
  whitespace, nothing is sent and the state is unchanged.
\<close>

theorem enter_sends_buffer_as_is:
  assumes "ch \<in> {KEY_ENTER K, 10, 13}" and "ch \<noteq> - 1"
  shows "curses_main_key K ch st =
    (if strip (input_buffer st) \<noteq> []
     then st\<lparr>send_calls := send_calls st @ [input_buffer st], input_buffer := []\<rparr>
     else st)"
  using assms by (simp add: curses_main_key_def send_message_def)

theorem enter_sends_buffer_as_is_witness:
  "curses_main_key ncurses 13 \<lparr>input_buffer = '' hi '', send_calls = [''a'']\<rparr>
     = \<lparr>input_buffer = [], send_calls = [''a'', '' hi '']\<rparr>"
  using enter_sends_buffer_as_is
    [of 13 ncurses "\<lparr>input_buffer = '' hi '', send_calls = [''a'']\<rparr>"]
  by (simp add: strip_hi)

text \<open>
  The claim as written (the message sent is the trimmed buffer) fails: on the buffer
  \<open>'' hi ''\<close> the message passed to \<open>send_message\<close> keeps both spaces.
\<close>

theorem enter_sends_trimmed_counterexample:
  "send_calls (curses_main_key ncurses 10 \<lparr>input_buffer = '' hi '', send_calls = []\<rparr>)
     = ['' hi '']
   \<and> send_calls (curses_main_key ncurses 10 \<lparr>input_buffer = '' hi '', send_calls = []\<rparr>)
     \<noteq> [strip '' hi '']"
  by (simp add: curses_main_key_def send_message_def ncurses_def strip_hi)

text \<open>
  C9. A key that is neither Enter/Return nor Backspace is appended to the buffer, as
  the character with that code, exactly when its code lies in the single-byte range 0 to
  255, printable or not; a code outside that range leaves the state unchanged.
\<close>

theorem other_key_appended_iff_single_byte:
  assumes "ch \<notin> {KEY_ENTER K, 10, 13}" and "ch \<notin> {KEY_BACKSPACE K, 127}"
  shows "curses_main_key K ch st =
    (if 0 \<le> ch \<and> ch \<le> 255 then st\<lparr>input_buffer := input_buffer st @ [char_of ch]\<rparr>
     else st)"
  using assms by (auto simp add: curses_main_key_def)

theorem other_key_appended_iff_single_byte_witness:
  "curses_main_key ncurses 97 \<lparr>input_buffer = ''h'', send_calls = []\<rparr>
     = \<lparr>input_buffer = ''ha'', send_calls = []\<rparr>
   \<and> curses_main_key ncurses 410 \<lparr>input_buffer = ''h'', send_calls = []\<rparr>
     = \<lparr>input_buffer = ''h'', send_calls = []\<rparr>"
  using other_key_appended_iff_single_byte
      [of 97 ncurses "\<lparr>input_buffer = ''h'', send_calls = []\<rparr>"]
    other_key_appended_iff_single_byte
      [of 410 ncurses "\<lparr>input_buffer = ''h'', send_calls = []\<rparr>"]
  by (simp add: ncurses_def char_of_def)

text \<open>
  The claim as written (only printable characters are appended) fails: the Escape key,
  code 27, is not printable and is appended to the buffer.
\<close>

theorem unprintable_key_appended_counterexample:
  "\<not> isprintable 27
   \<and> 27 \<notin> {KEY_ENTER ncurses, 10, 13} \<and> 27 \<notin> {KEY_BACKSPACE ncurses, 127}
   \<and> input_buffer (curses_main_key ncurses 27 \<lparr>input_buffer = ''h'', send_calls = []\<rparr>)
     = [CHR ''h'', CHR 0x1B]"
  by (simp add: curses_main_key_def ncurses_def isprintable_def char_of_def)

section \<open>\<open>parse_bbcode\<close>\<close>

definition upper :: "library \<Rightarrow> string \<Rightarrow> string" where
  \<comment> \<open>\<open>s.upper()\<close>, character by character: an ASCII letter \<open>a\<close> to \<open>z\<close> becomes
      \<open>A\<close> to \<open>Z\<close>, any other ASCII character stays, and a character from 128 on is
      mapped by the table of the library.\<close>
  "upper L s =
     concat (map (\<lambda>c. let n = of_char c :: nat in
                        if n < 128 then (if 97 \<le> n \<and> n \<le> 122 then [char_of (n - 32)] else [c])
                        else upper_latin1 L c) s)"

fun find_first :: "string \<Rightarrow> string \<Rightarrow> (string \<times> string) option" where
  \<comment> \<open>The first occurrence of \<open>pat\<close> in a text: the text before it and the text after
      it. This is where a lazy \<open>(.*?)\<close> followed by the literal \<open>pat\<close> stops.\<close>
  "find_first pat [] = (if pat = [] then Some ([], []) else None)"
| "find_first pat (c # cs) =
     (if prefix pat (c # cs) then Some ([], drop (length pat) (c # cs))
      else map_option (\<lambda>(b, a). (c # b, a)) (find_first pat cs))"

text \<open>
  The three regular expressions of \<open>parse_bbcode\<close>, all compiled with \<open>re.DOTALL\<close>:
  \<^verbatim>\<open>\[b\](.*?)\[/b\]\<close>, \<^verbatim>\<open>\[i\](.*?)\[/i\]\<close> and
  \<^verbatim>\<open>\[color=([^]]+)\](.*?)\[/color\]\<close>.
\<close>

datatype pattern = Bold | Italic | Color

fun open_tag :: "pattern \<Rightarrow> string \<Rightarrow> string option" where
  \<comment> \<open>The opening tag matched at the start of a text: the text after it. In the colour
      pattern \<open>[^]]+\<close> takes one or more characters other than \<open>]\<close> and must be
      followed by \<open>]\<close>, so it ends at the first \<open>]\<close>.\<close>
  "open_tag Bold s = (if prefix ''[b]'' s then Some (drop 3 s) else None)"
| "open_tag Italic s = (if prefix ''[i]'' s then Some (drop 3 s) else None)"
| "open_tag Color s =
     (if prefix ''[color='' s then
        (let r = drop 7 s;
             attr = takeWhile (\<lambda>c. c \<noteq> CHR '']'') r;
             r' = dropWhile (\<lambda>c. c \<noteq> CHR '']'') r
         in if attr \<noteq> [] \<and> r' \<noteq> [] then Some (tl r') else None)
      else None)"

fun close_tag :: "pattern \<Rightarrow> string" where
  "close_tag Bold = ''[/b]''"
| "close_tag Italic = ''[/i]''"
| "close_tag Color = ''[/color]''"

fun replacement :: "library \<Rightarrow> pattern \<Rightarrow> string \<Rightarrow> string" where
  \<comment> \<open>The three lambdas, applied to the captured text between the tags.\<close>
  "replacement L Bold g = upper L g"
| "replacement L Italic g = ''_'' @ g @ ''_''"
| "replacement L Color g = g"

definition match_at :: "pattern \<Rightarrow> string \<Rightarrow> (string \<times> string) option" where
  \<comment> \<open>A match starting at the first character: the captured text and the text after the
      match.\<close>
  "match_at p s = (case open_tag p s of None \<Rightarrow> None | Some r \<Rightarrow> find_first (close_tag p) r)"

fun search :: "pattern \<Rightarrow> string \<Rightarrow> (string \<times> string \<times> string) option" where
  \<comment> \<open>The leftmost match: the text before it, the captured text, the text after it.\<close>
  "search p [] = None"
| "search p (c # cs) =
     (case match_at p (c # cs) of
        Some (g, a) \<Rightarrow> Some ([], g, a)
      | None \<Rightarrow> map_option (\<lambda>(b, g, a). (c # b, g, a)) (search p cs))"

lemma find_first_Some: "find_first pat s = Some (b, a) \<Longrightarrow> s = b @ pat @ a"
proof (induction s arbitrary: b)
  case Nil
  then show ?case by (simp split: if_splits)
next
  case (Cons c cs)
  show ?case
  proof (cases "prefix pat (c # cs)")
    case True
    with Cons.prems have "b = []" and "a = drop (length pat) (c # cs)" by auto
    moreover from True have "pat @ drop (length pat) (c # cs) = c # cs"
      by (metis append_eq_conv_conj prefix_def)
    ultimately show ?thesis by simp
  next
    case False
    with Cons.prems obtain b' where "find_first pat cs = Some (b', a)" and "b = c # b'"
      by auto
    with Cons.IH show ?thesis by simp
  qed
qed

lemma open_tag_shorter: "open_tag p s = Some r \<Longrightarrow> length r < length s"
proof (cases p)
  case Bold
  assume "open_tag p s = Some r"
  with Bold show ?thesis by (auto simp: prefix_def split: if_splits)
next
  case Italic
  assume "open_tag p s = Some r"
  with Italic show ?thesis by (auto simp: prefix_def split: if_splits)
next
  case Color
  assume a: "open_tag p s = Some r"
  let ?r = "drop 7 s"
  from a Color have r: "r = tl (dropWhile (\<lambda>c. c \<noteq> CHR '']'') ?r)"
    and pre: "prefix ''[color='' s"
    by (auto simp: Let_def split: if_splits)
  have "length (dropWhile (\<lambda>c. c \<noteq> CHR '']'') ?r) \<le> length ?r"
    by (rule length_dropWhile_le)
  moreover from pre have "7 \<le> length s" by (auto simp: prefix_def)
  ultimately show ?thesis using r by simp
qed

lemma match_at_shorter: "match_at p s = Some (g, a) \<Longrightarrow> length a < length s"
  by (auto simp: match_at_def split: option.splits
      dest!: find_first_Some open_tag_shorter)

lemma search_shorter: "search p s = Some (b, g, a) \<Longrightarrow> length a < length s"
proof (induction s arbitrary: b)
  case Nil
  then show ?case by simp
next
  case (Cons c cs)
  show ?case
  proof (cases "match_at p (c # cs)")
    case None
    with Cons.prems obtain b' where "search p cs = Some (b', g, a)" by auto
    with Cons.IH have "length a < length cs" by blast
    then show ?thesis by simp
  next
    case (Some ga)
    with Cons.prems have "match_at p (c # cs) = Some (g, a)" by (cases ga) auto
    then show ?thesis by (rule match_at_shorter)
  qed
qed

function re_sub :: "library \<Rightarrow> pattern \<Rightarrow> string \<Rightarrow> string" where
  \<comment> \<open>\<open>re.sub(pattern, repl, text, flags=re.DOTALL)\<close>: every match, found from left to
      right and not overlapping, is replaced; the text between matches is copied.\<close>
  "re_sub L p s =
     (case search p s of
        None \<Rightarrow> s
      | Some (b, g, a) \<Rightarrow> b @ replacement L p g @ re_sub L p a)"
  by pat_completeness auto
termination
  by (relation "measure (\<lambda>(L, p, s). length s)") (auto dest: search_shorter)

declare re_sub.simps [simp del]

definition parse_bbcode :: "library \<Rightarrow> string \<Rightarrow> string" where
  "parse_bbcode L text =
     (let text = re_sub L Bold text;
          text = re_sub L Italic text;
          text = re_sub L Color text
      in text)"

lemma ex_bold: "parse_bbcode L ''[b]hi[/b]'' = ''HI''"
  by code_simp

lemma ex_italic: "parse_bbcode L ''[i]hi[/i]'' = ''_hi_''"
  by code_simp

lemma ex_color: "parse_bbcode L ''[color=#ff0000]hi[/color]'' = ''hi''"
  by code_simp

lemma ex_two_bold: "parse_bbcode L ''[b]a[/b]x[b]c[/b]'' = ''AxC''"
  by code_simp

lemma ex_search: "search Bold ''[b]a[/b]x[b]c[/b]'' = Some ([], ''a'', ''x[b]c[/b]'')"
  by code_simp

subsection \<open>Where a match starts and where it ends\<close>

lemma find_first_prefix: "prefix pat s \<Longrightarrow> find_first pat s = Some ([], drop (length pat) s)"
  by (cases s) auto

lemma find_first_nearest:
  "find_first pat s = Some (b, a) \<Longrightarrow> \<forall>k<length b. \<not> prefix pat (drop k s)"
proof (induction s arbitrary: b)
  case Nil
  then show ?case by (simp split: if_splits)
next
  case (Cons c cs)
  show ?case
  proof (cases "prefix pat (c # cs)")
    case True
    with Cons.prems show ?thesis by auto
  next
    case False
    with Cons.prems obtain b' where b': "find_first pat cs = Some (b', a)" "b = c # b'"
      by auto
    from Cons.IH [OF b'(1)] have ih: "\<forall>k<length b'. \<not> prefix pat (drop k cs)" .
    show ?thesis
    proof (intro allI impI)
      fix k assume "k < length b"
      then show "\<not> prefix pat (drop k (c # cs))"
        using False ih b'(2) by (cases k) auto
    qed
  qed
qed

lemma find_first_exact:
  "\<forall>k<length g. \<not> prefix pat (drop k (g @ pat @ a)) \<Longrightarrow> find_first pat (g @ pat @ a) = Some (g, a)"
proof (induction g)
  case Nil
  have "prefix pat (pat @ a)" by simp
  then have "find_first pat (pat @ a) = Some ([], drop (length pat) (pat @ a))"
    by (rule find_first_prefix)
  then show ?case by simp
next
  case (Cons c g)
  from Cons.prems have "\<not> prefix pat (drop 0 ((c # g) @ pat @ a))" by blast
  then have no: "\<not> prefix pat (c # g @ pat @ a)" by simp
  have "\<forall>k<length g. \<not> prefix pat (drop k (g @ pat @ a))"
  proof (intro allI impI)
    fix k assume "k < length g"
    then have "Suc k < length (c # g)" by simp
    with Cons.prems have "\<not> prefix pat (drop (Suc k) ((c # g) @ pat @ a))" by blast
    then show "\<not> prefix pat (drop k (g @ pat @ a))" by simp
  qed
  with Cons.IH have "find_first pat (g @ pat @ a) = Some (g, a)" by blast
  with no show ?case by simp
qed

lemma find_first_occurs: "find_first pat (b @ pat @ a) \<noteq> None"
proof (induction b)
  case Nil
  have "prefix pat (pat @ a)" by simp
  from find_first_prefix [OF this] show ?case by simp
next
  case (Cons c b)
  then show ?case by (cases "prefix pat (c # b @ pat @ a)") auto
qed

lemma open_tag_Bold_iff: "open_tag Bold s = Some r \<longleftrightarrow> s = ''[b]'' @ r"
proof
  assume "open_tag Bold s = Some r"
  then have "prefix ''[b]'' s" and "r = drop 3 s" by (auto split: if_splits)
  then show "s = ''[b]'' @ r" by (auto simp: prefix_def)
next
  assume "s = ''[b]'' @ r"
  then show "open_tag Bold s = Some r" by simp
qed

lemma open_tag_Italic_iff: "open_tag Italic s = Some r \<longleftrightarrow> s = ''[i]'' @ r"
proof
  assume "open_tag Italic s = Some r"
  then have "prefix ''[i]'' s" and "r = drop 3 s" by (auto split: if_splits)
  then show "s = ''[i]'' @ r" by (auto simp: prefix_def)
next
  assume "s = ''[i]'' @ r"
  then show "open_tag Italic s = Some r" by simp
qed

lemma open_tag_Color_iff:
  "open_tag Color s = Some r \<longleftrightarrow>
     (\<exists>v. v \<noteq> [] \<and> CHR '']'' \<notin> set v \<and> s = ''[color='' @ v @ '']'' @ r)"
proof
  assume a: "open_tag Color s = Some r"
  let ?P = "\<lambda>c. c \<noteq> CHR '']''"
  let ?r0 = "drop 7 s"
  from a have pre: "prefix ''[color='' s"
    and v: "takeWhile ?P ?r0 \<noteq> []"
    and d: "dropWhile ?P ?r0 \<noteq> []"
    and r: "r = tl (dropWhile ?P ?r0)"
    by (auto simp: Let_def split: if_splits)
  from pre have s: "s = ''[color='' @ ?r0" by (auto simp: prefix_def)
  from d have "\<not> ?P (hd (dropWhile ?P ?r0))" by (rule hd_dropWhile)
  with d r have dd: "dropWhile ?P ?r0 = CHR '']'' # r"
    by (cases "dropWhile ?P ?r0") auto
  have "?r0 = takeWhile ?P ?r0 @ dropWhile ?P ?r0" by simp
  with dd have r0: "?r0 = takeWhile ?P ?r0 @ '']'' @ r" by simp
  have "CHR '']'' \<notin> set (takeWhile ?P ?r0)" by (auto dest: set_takeWhileD)
  with v s r0 show "\<exists>v. v \<noteq> [] \<and> CHR '']'' \<notin> set v \<and> s = ''[color='' @ v @ '']'' @ r"
    by metis
next
  assume "\<exists>v. v \<noteq> [] \<and> CHR '']'' \<notin> set v \<and> s = ''[color='' @ v @ '']'' @ r"
  then obtain v where v: "v \<noteq> []" "CHR '']'' \<notin> set v" and s: "s = ''[color='' @ v @ '']'' @ r"
    by blast
  let ?P = "\<lambda>c. c \<noteq> CHR '']''"
  from v(2) have all: "\<And>x. x \<in> set v \<Longrightarrow> ?P x" by blast
  have t: "takeWhile ?P (v @ CHR '']'' # r) = v"
    using all by (simp add: takeWhile_append2)
  have dw: "dropWhile ?P (v @ CHR '']'' # r) = CHR '']'' # r"
    using all by (simp add: dropWhile_append2)
  have dr: "drop 7 s = v @ CHR '']'' # r" using s by simp
  have pre: "prefix ''[color='' s" using s by simp
  show "open_tag Color s = Some r"
    using pre v(1) by (simp add: dr t dw del: dropWhile_append2 takeWhile_append2)
qed

lemma open_tag_split: "open_tag p s = Some r \<Longrightarrow> \<exists>tg. s = tg @ r \<and> open_tag p tg = Some []"
proof (cases p)
  case Bold
  assume "open_tag p s = Some r"
  with Bold have "s = ''[b]'' @ r" by (simp only: open_tag_Bold_iff)
  moreover have "open_tag Bold ''[b]'' = Some []" by simp
  ultimately show ?thesis using Bold by blast
next
  case Italic
  assume "open_tag p s = Some r"
  with Italic have "s = ''[i]'' @ r" by (simp only: open_tag_Italic_iff)
  moreover have "open_tag Italic ''[i]'' = Some []" by simp
  ultimately show ?thesis using Italic by blast
next
  case Color
  assume "open_tag p s = Some r"
  with Color obtain v where v: "v \<noteq> []" "CHR '']'' \<notin> set v"
    and s: "s = ''[color='' @ v @ '']'' @ r"
    by (auto simp only: open_tag_Color_iff)
  from v have "open_tag Color (''[color='' @ v @ '']'' @ []) = Some []"
    by (subst open_tag_Color_iff) blast
  then have "open_tag Color (''[color='' @ v @ '']'') = Some []" by simp
  moreover from s have "s = (''[color='' @ v @ '']'') @ r" by simp
  ultimately show ?thesis using Color by blast
qed

lemma open_tag_append: "open_tag p tg = Some [] \<Longrightarrow> open_tag p (tg @ r) = Some r"
proof (cases p)
  case Bold
  assume "open_tag p tg = Some []"
  with Bold have "tg = ''[b]''" by (simp only: open_tag_Bold_iff append_Nil2)
  with Bold show ?thesis by simp
next
  case Italic
  assume "open_tag p tg = Some []"
  with Italic have "tg = ''[i]''" by (simp only: open_tag_Italic_iff append_Nil2)
  with Italic show ?thesis by simp
next
  case Color
  assume "open_tag p tg = Some []"
  with Color obtain v where v: "v \<noteq> []" "CHR '']'' \<notin> set v"
    and s: "tg = ''[color='' @ v @ '']'' @ []"
    by (auto simp only: open_tag_Color_iff)
  from s have "tg @ r = ''[color='' @ v @ '']'' @ r" by simp
  with v have "open_tag Color (tg @ r) = Some r"
    by (subst open_tag_Color_iff) blast
  with Color show ?thesis by simp
qed

lemma open_tag_Nil: "open_tag p [] = None"
  by (cases p) simp_all

lemma open_tag_not_bracket: "c \<noteq> CHR ''['' \<Longrightarrow> open_tag p (c # cs) = None"
  by (cases p) simp_all

lemma match_at_Nil: "match_at p [] = None"
  by (simp add: match_at_def open_tag_Nil)

lemma match_at_not_bracket: "c \<noteq> CHR ''['' \<Longrightarrow> match_at p (c # cs) = None"
  by (simp add: match_at_def open_tag_not_bracket)

lemma match_at_Some:
  assumes "match_at p s = Some (g, a)"
  shows "\<exists>tg. s = tg @ g @ close_tag p @ a \<and> open_tag p tg = Some []
           \<and> (\<forall>k<length g. \<not> prefix (close_tag p) (drop k (g @ close_tag p @ a)))"
proof -
  from assms obtain r where r: "open_tag p s = Some r"
    and f: "find_first (close_tag p) r = Some (g, a)"
    by (auto simp: match_at_def split: option.splits)
  from f have eq: "r = g @ close_tag p @ a" by (rule find_first_Some)
  from f have "\<forall>k<length g. \<not> prefix (close_tag p) (drop k r)" by (rule find_first_nearest)
  moreover from r obtain tg where "s = tg @ r" "open_tag p tg = Some []"
    using open_tag_split by blast
  ultimately show ?thesis using eq by blast
qed

lemma match_at_span:
  assumes "open_tag p tg = Some []"
    and "\<forall>k<length g. \<not> prefix (close_tag p) (drop k (g @ close_tag p @ a))"
  shows "match_at p (tg @ g @ close_tag p @ a) = Some (g, a)"
proof -
  from assms(1) have "open_tag p (tg @ g @ close_tag p @ a) = Some (g @ close_tag p @ a)"
    by (rule open_tag_append)
  moreover from assms(2) have "find_first (close_tag p) (g @ close_tag p @ a) = Some (g, a)"
    by (rule find_first_exact)
  ultimately show ?thesis by (simp add: match_at_def)
qed

lemma match_at_occurs:
  assumes "open_tag p tg = Some []"
  shows "match_at p (tg @ g @ close_tag p @ a) \<noteq> None"
proof -
  from assms have "open_tag p (tg @ g @ close_tag p @ a) = Some (g @ close_tag p @ a)"
    by (rule open_tag_append)
  then show ?thesis using find_first_occurs [of "close_tag p" g a]
    by (simp add: match_at_def)
qed

lemma search_at_match: "match_at p s = Some (g, a) \<Longrightarrow> search p s = Some ([], g, a)"
  by (cases s) (simp_all add: match_at_Nil)

lemma search_Some:
  "search p s = Some (b, g, a) \<Longrightarrow> \<exists>r. s = b @ r \<and> match_at p r = Some (g, a)"
proof (induction s arbitrary: b)
  case Nil
  then show ?case by simp
next
  case (Cons c cs)
  show ?case
  proof (cases "match_at p (c # cs)")
    case None
    with Cons.prems obtain b' where b': "search p cs = Some (b', g, a)" "b = c # b'"
      by auto
    from Cons.IH [OF b'(1)] obtain r where "cs = b' @ r" "match_at p r = Some (g, a)"
      by blast
    with b'(2) show ?thesis by auto
  next
    case (Some ga)
    with Cons.prems have "b = []" and "match_at p (c # cs) = Some (g, a)"
      by (cases ga; auto)+
    then show ?thesis by auto
  qed
qed

lemma search_occurs: "match_at p r \<noteq> None \<Longrightarrow> search p (b @ r) \<noteq> None"
proof (induction b)
  case Nil
  then obtain g a where "match_at p r = Some (g, a)" by auto
  from search_at_match [OF this] show ?case by simp
next
  case (Cons c b)
  then show ?case by (cases "match_at p (c # b @ r)") auto
qed

lemma search_skip:
  assumes "CHR ''['' \<notin> set x" and "match_at p s = Some (g, a)"
  shows "search p (x @ s) = Some (x, g, a)"
  using assms(1)
proof (induction x)
  case Nil
  from search_at_match [OF assms(2)] show ?case by simp
next
  case (Cons c x)
  then have "c \<noteq> CHR ''[''" and "search p (x @ s) = Some (x, g, a)" by auto
  then show ?case by (simp add: match_at_not_bracket)
qed

lemma search_plain: "CHR ''['' \<notin> set s \<Longrightarrow> search p s = None"
  by (induction s) (auto simp: match_at_not_bracket)

lemma re_sub_None: "search p s = None \<Longrightarrow> re_sub L p s = s"
  by (subst re_sub.simps) simp

lemma re_sub_Some: "search p s = Some (b, g, a) \<Longrightarrow> re_sub L p s = b @ replacement L p g @ re_sub L p a"
  by (subst re_sub.simps) simp

lemma no_close_inside:
  assumes "CHR ''['' \<notin> set g"
  shows "\<forall>k<length g. \<not> prefix (close_tag p) (drop k (g @ close_tag p @ a))"
proof (intro allI impI)
  fix k assume k: "k < length g"
  then have "drop k (g @ close_tag p @ a) = g ! k # drop (Suc k) g @ close_tag p @ a"
    by (simp add: Cons_nth_drop_Suc)
  moreover from k assms have "g ! k \<noteq> CHR ''[''" by (metis nth_mem)
  ultimately show "\<not> prefix (close_tag p) (drop k (g @ close_tag p @ a))"
    by (cases p) auto
qed

lemma re_sub_span:
  assumes "CHR ''['' \<notin> set x" and "open_tag p tg = Some []" and "CHR ''['' \<notin> set g"
  shows "re_sub L p (x @ tg @ g @ close_tag p @ a) = x @ replacement L p g @ re_sub L p a"
proof -
  from assms(3) have "\<forall>k<length g. \<not> prefix (close_tag p) (drop k (g @ close_tag p @ a))"
    by (rule no_close_inside)
  with assms(2) have "match_at p (tg @ g @ close_tag p @ a) = Some (g, a)"
    by (rule match_at_span)
  with assms(1) have "search p (x @ tg @ g @ close_tag p @ a) = Some (x, g, a)"
    by (rule search_skip)
  then show ?thesis by (rule re_sub_Some)
qed

lemma search_Some_span:
  assumes "search p s = Some (b, g, a)"
  shows "\<exists>tg. s = b @ tg @ g @ close_tag p @ a \<and> open_tag p tg = Some []"
    and "\<forall>k<length g. \<not> prefix (close_tag p) (drop k (g @ close_tag p @ a))"
proof -
  from assms obtain r where r: "s = b @ r" "match_at p r = Some (g, a)"
    using search_Some by blast
  from match_at_Some [OF r(2)] obtain tg where tg: "r = tg @ g @ close_tag p @ a"
    "open_tag p tg = Some []"
    "\<forall>k<length g. \<not> prefix (close_tag p) (drop k (g @ close_tag p @ a))"
    by blast
  from r(1) tg(1) tg(2) show "\<exists>tg. s = b @ tg @ g @ close_tag p @ a \<and> open_tag p tg = Some []"
    by blast
  from tg(3) show "\<forall>k<length g. \<not> prefix (close_tag p) (drop k (g @ close_tag p @ a))" .
qed

lemma span_found:
  assumes "open_tag p tg = Some []"
  shows "search p (b @ tg @ g @ close_tag p @ a) \<noteq> None"
  using match_at_occurs [OF assms] by (rule search_occurs)

lemma search_cases:
  obtains (none) "search p s = None" | (some) b g a where "search p s = Some (b, g, a)"
  by (cases "search p s") auto

lemma no_bold_span:
  assumes "\<forall>b g a. s \<noteq> b @ ''[b]'' @ g @ ''[/b]'' @ a"
  shows "search Bold s = None"
proof (cases rule: search_cases [of Bold s])
  case none
  then show ?thesis .
next
  case (some b g a)
  from search_Some_span(1) [OF some] obtain tg
    where tg: "s = b @ tg @ g @ close_tag Bold @ a" "open_tag Bold tg = Some []" by blast
  from tg(2) have "tg = ''[b]''" by (simp only: open_tag_Bold_iff append_Nil2)
  with tg(1) have "s = b @ ''[b]'' @ g @ ''[/b]'' @ a" by simp
  with assms show ?thesis by blast
qed

lemma no_italic_span:
  assumes "\<forall>b g a. s \<noteq> b @ ''[i]'' @ g @ ''[/i]'' @ a"
  shows "search Italic s = None"
proof (cases rule: search_cases [of Italic s])
  case none
  then show ?thesis .
next
  case (some b g a)
  from search_Some_span(1) [OF some] obtain tg
    where tg: "s = b @ tg @ g @ close_tag Italic @ a" "open_tag Italic tg = Some []" by blast
  from tg(2) have "tg = ''[i]''" by (simp only: open_tag_Italic_iff append_Nil2)
  with tg(1) have "s = b @ ''[i]'' @ g @ ''[/i]'' @ a" by simp
  with assms show ?thesis by blast
qed

lemma no_color_span:
  assumes "\<forall>b v g a. v \<noteq> [] \<and> CHR '']'' \<notin> set v
             \<longrightarrow> s \<noteq> b @ ''[color='' @ v @ '']'' @ g @ ''[/color]'' @ a"
  shows "search Color s = None"
proof (cases rule: search_cases [of Color s])
  case none
  then show ?thesis .
next
  case (some b g a)
  from search_Some_span(1) [OF some] obtain tg
    where tg: "s = b @ tg @ g @ close_tag Color @ a" "open_tag Color tg = Some []" by blast
  from tg(2) obtain v where v: "v \<noteq> []" "CHR '']'' \<notin> set v"
    and "tg = ''[color='' @ v @ '']'' @ []"
    by (auto simp only: open_tag_Color_iff)
  with tg(1) have "s = b @ ''[color='' @ v @ '']'' @ g @ ''[/color]'' @ a" by simp
  with assms v show ?thesis by blast
qed

lemma open_color: "v \<noteq> [] \<Longrightarrow> CHR '']'' \<notin> set v \<Longrightarrow> open_tag Color (''[color='' @ v @ '']'') = Some []"
proof -
  assume "v \<noteq> []" and "CHR '']'' \<notin> set v"
  then have "open_tag Color (''[color='' @ v @ '']'' @ []) = Some []"
    by (subst open_tag_Color_iff) blast
  then show ?thesis by simp
qed

lemma parse_bbcode_unfold:
  "parse_bbcode L text = re_sub L Color (re_sub L Italic (re_sub L Bold text))"
  by (simp add: parse_bbcode_def)

lemma search_leftmost:
  "search p s = Some (b, g, a) \<Longrightarrow> \<forall>k<length b. match_at p (drop k s) = None"
proof (induction s arbitrary: b)
  case Nil
  then show ?case by simp
next
  case (Cons c cs)
  show ?case
  proof (cases "match_at p (c # cs)")
    case None
    with Cons.prems obtain b' where b': "search p cs = Some (b', g, a)" "b = c # b'"
      by auto
    from Cons.IH [OF b'(1)] have ih: "\<forall>k<length b'. match_at p (drop k cs) = None" .
    show ?thesis
    proof (intro allI impI)
      fix k assume "k < length b"
      then show "match_at p (drop k (c # cs)) = None"
        using None ih b'(2) by (cases k) auto
    qed
  next
    case (Some ga)
    with Cons.prems have "b = []" by (cases ga) auto
    then show ?thesis by simp
  qed
qed

lemma search_from_leftmost:
  assumes "\<forall>k<length x. match_at p (drop k (x @ r)) = None" and "match_at p r = Some (g, a)"
  shows "search p (x @ r) = Some (x, g, a)"
  using assms(1)
proof (induction x)
  case Nil
  from search_at_match [OF assms(2)] show ?case by simp
next
  case (Cons c x)
  from Cons.prems have "match_at p (drop 0 ((c # x) @ r)) = None" by blast
  then have no: "match_at p (c # x @ r) = None" by simp
  have "\<forall>k<length x. match_at p (drop k (x @ r)) = None"
  proof (intro allI impI)
    fix k assume "k < length x"
    then have "Suc k < length (c # x)" by simp
    with Cons.prems have "match_at p (drop (Suc k) ((c # x) @ r)) = None" by blast
    then show "match_at p (drop k (x @ r)) = None" by simp
  qed
  with Cons.IH have "search p (x @ r) = Some (x, g, a)" by blast
  with no show ?case by simp
qed

lemma re_sub_leftmost_span:
  assumes "open_tag p tg = Some []"
    and "\<forall>k<length g. \<not> prefix (close_tag p) (drop k (g @ close_tag p @ a))"
    and "\<forall>k<length x. match_at p (drop k (x @ tg @ g @ close_tag p @ a)) = None"
  shows "re_sub L p (x @ tg @ g @ close_tag p @ a) = x @ replacement L p g @ re_sub L p a"
proof -
  from assms(1,2) have "match_at p (tg @ g @ close_tag p @ a) = Some (g, a)"
    by (rule match_at_span)
  with assms(3) have "search p (x @ tg @ g @ close_tag p @ a) = Some (x, g, a)"
    by (rule search_from_leftmost)
  then show ?thesis by (rule re_sub_Some)
qed

lemma open_tag_whole:
  "open_tag Bold tg = Some [] \<longleftrightarrow> tg = ''[b]''"
  "open_tag Italic tg = Some [] \<longleftrightarrow> tg = ''[i]''"
  "open_tag Color tg = Some [] \<longleftrightarrow> (\<exists>v. v \<noteq> [] \<and> CHR '']'' \<notin> set v \<and> tg = ''[color='' @ v @ '']'')"
  by (simp_all only: open_tag_Bold_iff open_tag_Italic_iff open_tag_Color_iff append_Nil2)

lemma upper_ascii:
  assumes "\<forall>c\<in>set s. (of_char c :: nat) < 128"
  shows "upper L s = map (\<lambda>c. if 97 \<le> (of_char c :: nat) \<and> (of_char c :: nat) \<le> 122
                                then char_of ((of_char c :: nat) - 32) else c) s"
  using assms by (induction s) (simp_all add: upper_def Let_def)

lemma upper_append: "upper L (s @ t) = upper L s @ upper L t"
  by (simp add: upper_def)

lemma upper_above_ascii: "128 \<le> (of_char c :: nat) \<Longrightarrow> upper L [c] = upper_latin1 L c"
  by (simp add: upper_def)

lemma ex_order: "parse_bbcode L ''[b][i]x[/i][/b]'' = ''[I]X[/I]''"
  by code_simp

lemma ex_nested: "parse_bbcode L ''[b]a[i]b[/i][/b]'' = ''A[I]B[/I]''"
  by code_simp

lemma ex_unmatched:
  "search Bold ''hello [b]world'' = None"
  "search Italic ''hello [b]world'' = None"
  "search Color ''hello [b]world'' = None"
  by code_simp+

lemma ex_upper: "upper L ''a[i]b[/i]'' = ''A[I]B[/I]''"
  by code_simp

lemma ex_multiline: "CHR ''['' \<notin> set [CHR ''a'', CHR 0x0A, CHR ''b'']"
  by simp

lemma ex_search_nested:
  "search Bold (''x'' @ ''[b]'' @ ''a[i]b[/i]'' @ close_tag Bold @ ''y'')
     = Some (''x'', ''a[i]b[/i]'', ''y'')"
  by code_simp

section \<open>Properties of \<open>parse_bbcode\<close>\<close>

text \<open>
  C3. \<open>parse_bbcode\<close> is three rewrites in a fixed order: bold, then italic, then
  colour, each on the result of the one before. A rewrite leaves a text with no match as
  it is; otherwise it copies the text before the leftmost match, replaces the span and
  goes on in the text after it. The leftmost match is an opening tag, the captured text
  and the closing tag, with no match at an earlier position; and every text of that form
  in which no closing tag starts inside the captured text is rewritten so, whatever else
  the captured text holds (other tags too). Opening tags are \<open>[b]\<close>, \<open>[i]\<close> and
  \<open>[color=v]\<close> for a non-empty \<open>v\<close> without \<open>]\<close>. A bold span is replaced by its text
  in upper case (\<open>str.upper\<close>: on ASCII text the letters \<open>a\<close> to \<open>z\<close> become \<open>A\<close> to
  \<open>Z\<close>, a character from 128 on is mapped by the library), an italic span by its text
  between two underscores, a colour span by its text alone. The three examples of the
  specification hold, the order shows on \<open>[b][i]x[/i][/b]\<close>, and a text in which none
  of the three patterns occurs is returned unchanged.
\<close>

theorem parse_bbcode_three_rewrites:
  "parse_bbcode L text = re_sub L Color (re_sub L Italic (re_sub L Bold text))
   \<and> (search p s = None \<longrightarrow> re_sub L p s = s)
   \<and> (search p s = Some (b, g, a) \<longrightarrow>
        re_sub L p s = b @ replacement L p g @ re_sub L p a
      \<and> (\<exists>tg. s = b @ tg @ g @ close_tag p @ a \<and> open_tag p tg = Some [])
      \<and> (\<forall>k<length b. match_at p (drop k s) = None))
   \<and> (open_tag p tg = Some []
        \<and> (\<forall>k<length g'. \<not> prefix (close_tag p) (drop k (g' @ close_tag p @ a')))
        \<and> (\<forall>k<length x. match_at p (drop k (x @ tg @ g' @ close_tag p @ a')) = None)
      \<longrightarrow> re_sub L p (x @ tg @ g' @ close_tag p @ a')
            = x @ replacement L p g' @ re_sub L p a')
   \<and> (open_tag Bold tg = Some [] \<longleftrightarrow> tg = ''[b]'')
   \<and> (open_tag Italic tg = Some [] \<longleftrightarrow> tg = ''[i]'')
   \<and> (open_tag Color tg = Some []
        \<longleftrightarrow> (\<exists>v. v \<noteq> [] \<and> CHR '']'' \<notin> set v \<and> tg = ''[color='' @ v @ '']''))
   \<and> replacement L Bold g = upper L g
   \<and> replacement L Italic g = ''_'' @ g @ ''_''
   \<and> replacement L Color g = g
   \<and> upper L (u @ w) = upper L u @ upper L w
   \<and> ((\<forall>c\<in>set u. (of_char c :: nat) < 128) \<longrightarrow>
        upper L u = map (\<lambda>c. if 97 \<le> (of_char c :: nat) \<and> (of_char c :: nat) \<le> 122
                              then char_of ((of_char c :: nat) - 32) else c) u)
   \<and> (128 \<le> (of_char ch :: nat) \<longrightarrow> upper L [ch] = upper_latin1 L ch)
   \<and> parse_bbcode L ''[b]hi[/b]'' = ''HI''
   \<and> parse_bbcode L ''[i]hi[/i]'' = ''_hi_''
   \<and> parse_bbcode L ''[color=#ff0000]hi[/color]'' = ''hi''
   \<and> parse_bbcode L ''[b][i]x[/i][/b]'' = ''[I]X[/I]''
   \<and> parse_bbcode L ''[b]a[i]b[/i][/b]'' = ''A[I]B[/I]''
   \<and> ((\<forall>b g a. text \<noteq> b @ ''[b]'' @ g @ ''[/b]'' @ a)
      \<and> (\<forall>b g a. text \<noteq> b @ ''[i]'' @ g @ ''[/i]'' @ a)
      \<and> (\<forall>b v g a. v \<noteq> [] \<and> CHR '']'' \<notin> set v
             \<longrightarrow> text \<noteq> b @ ''[color='' @ v @ '']'' @ g @ ''[/color]'' @ a)
      \<longrightarrow> parse_bbcode L text = text)"
proof -
  have none: "search p s = None \<longrightarrow> re_sub L p s = s"
    by (simp add: re_sub_None)
  have some: "search p s = Some (b, g, a) \<longrightarrow>
        re_sub L p s = b @ replacement L p g @ re_sub L p a
      \<and> (\<exists>tg. s = b @ tg @ g @ close_tag p @ a \<and> open_tag p tg = Some [])
      \<and> (\<forall>k<length b. match_at p (drop k s) = None)"
    using re_sub_Some search_Some_span(1) search_leftmost by blast
  have span: "open_tag p tg = Some []
        \<and> (\<forall>k<length g'. \<not> prefix (close_tag p) (drop k (g' @ close_tag p @ a')))
        \<and> (\<forall>k<length x. match_at p (drop k (x @ tg @ g' @ close_tag p @ a')) = None)
      \<longrightarrow> re_sub L p (x @ tg @ g' @ close_tag p @ a')
            = x @ replacement L p g' @ re_sub L p a'"
    using re_sub_leftmost_span by blast
  have up: "(\<forall>c\<in>set u. (of_char c :: nat) < 128) \<longrightarrow>
        upper L u = map (\<lambda>c. if 97 \<le> (of_char c :: nat) \<and> (of_char c :: nat) \<le> 122
                              then char_of ((of_char c :: nat) - 32) else c) u"
    using upper_ascii by blast
  have above: "128 \<le> (of_char ch :: nat) \<longrightarrow> upper L [ch] = upper_latin1 L ch"
    using upper_above_ascii by blast
  have plain: "(\<forall>b g a. text \<noteq> b @ ''[b]'' @ g @ ''[/b]'' @ a)
      \<and> (\<forall>b g a. text \<noteq> b @ ''[i]'' @ g @ ''[/i]'' @ a)
      \<and> (\<forall>b v g a. v \<noteq> [] \<and> CHR '']'' \<notin> set v
             \<longrightarrow> text \<noteq> b @ ''[color='' @ v @ '']'' @ g @ ''[/color]'' @ a)
      \<longrightarrow> parse_bbcode L text = text"
  proof
    assume h: "(\<forall>b g a. text \<noteq> b @ ''[b]'' @ g @ ''[/b]'' @ a)
      \<and> (\<forall>b g a. text \<noteq> b @ ''[i]'' @ g @ ''[/i]'' @ a)
      \<and> (\<forall>b v g a. v \<noteq> [] \<and> CHR '']'' \<notin> set v
             \<longrightarrow> text \<noteq> b @ ''[color='' @ v @ '']'' @ g @ ''[/color]'' @ a)"
    then have "search Bold text = None" "search Italic text = None" "search Color text = None"
      using no_bold_span no_italic_span no_color_span by blast+
    then have "re_sub L Bold text = text" "re_sub L Italic text = text"
      "re_sub L Color text = text"
      by (simp_all add: re_sub_None)
    then show "parse_bbcode L text = text" by (simp add: parse_bbcode_unfold)
  qed
  note facts = parse_bbcode_unfold [of L "text"] none some span open_tag_whole [of tg]
    replacement.simps(1) [of L g] replacement.simps(2) [of L g] replacement.simps(3) [of L g]
    upper_append [of L u w] up above
    ex_bold [of L] ex_italic [of L] ex_color [of L] ex_order [of L] ex_nested [of L] plain
  show ?thesis by (intro conjI) (rule facts)+
qed

theorem parse_bbcode_three_rewrites_witness:
  "parse_bbcode example_library ''hello [b]world'' = ''hello [b]world''
   \<and> re_sub example_library Bold ''x[b]a[i]b[/i][/b]y'' = ''xA[I]B[/I]y''
   \<and> upper example_library [CHR 0xE9, CHR 0xDF] = [CHR 0xC9, CHR ''S'', CHR ''S'']"
proof -
  let ?t = "''hello [b]world''"
  have h1: "\<forall>b g a. ?t \<noteq> b @ ''[b]'' @ g @ ''[/b]'' @ a"
  proof (intro allI notI)
    fix b g a assume eq: "?t = b @ ''[b]'' @ g @ ''[/b]'' @ a"
    have "open_tag Bold ''[b]'' = Some []" by simp
    from span_found [OF this, of b g a] have "search Bold ?t \<noteq> None"
      unfolding eq by simp
    with ex_unmatched(1) show False by simp
  qed
  have h2: "\<forall>b g a. ?t \<noteq> b @ ''[i]'' @ g @ ''[/i]'' @ a"
  proof (intro allI notI)
    fix b g a assume eq: "?t = b @ ''[i]'' @ g @ ''[/i]'' @ a"
    have "open_tag Italic ''[i]'' = Some []" by simp
    from span_found [OF this, of b g a] have "search Italic ?t \<noteq> None"
      unfolding eq by simp
    with ex_unmatched(2) show False by simp
  qed
  have h3: "\<forall>b v g a. v \<noteq> [] \<and> CHR '']'' \<notin> set v
             \<longrightarrow> ?t \<noteq> b @ ''[color='' @ v @ '']'' @ g @ ''[/color]'' @ a"
  proof (intro allI impI notI)
    fix b v g a assume v: "v \<noteq> [] \<and> CHR '']'' \<notin> set v"
      and eq: "?t = b @ ''[color='' @ v @ '']'' @ g @ ''[/color]'' @ a"
    from v have "open_tag Color (''[color='' @ v @ '']'') = Some []"
      using open_color by blast
    from span_found [OF this, of b g a] have "search Color ?t \<noteq> None"
      unfolding eq by simp
    with ex_unmatched(3) show False by simp
  qed
  have o: "open_tag Bold ''[b]'' = Some []" by simp
  note n = search_Some_span(2) [OF ex_search_nested]
  note m = search_leftmost [OF ex_search_nested]
  have m': "\<forall>k<length ''x''.
      match_at Bold (drop k (''x'' @ ''[b]'' @ ''a[i]b[/i]'' @ close_tag Bold @ ''y'')) = None"
    using m by simp
  have z: "re_sub example_library Bold ''y'' = ''y''" by code_simp
  have e: "128 \<le> (of_char (CHR 0xE9) :: nat)" and s: "128 \<le> (of_char (CHR 0xDF) :: nat)"
    by simp_all
  have tb: "upper_latin1 example_library (CHR 0xE9) = [CHR 0xC9]"
    "upper_latin1 example_library (CHR 0xDF) = ''SS''"
    by code_simp+
  note T = parse_bbcode_three_rewrites
    [of example_library ?t Bold "[]" "[]" "''a[i]b[/i]''" "[]" "''[b]''" "''a[i]b[/i]''" "''y''"
      "''x''" "[CHR 0xE9]" "[CHR 0xDF]" "CHR 0xE9"]
  note T2 = parse_bbcode_three_rewrites
    [of example_library ?t Bold "[]" "[]" "''a[i]b[/i]''" "[]" "''[b]''" "''a[i]b[/i]''" "''y''"
      "''x''" "[CHR 0xE9]" "[CHR 0xDF]" "CHR 0xDF"]
  from T h1 h2 h3 have t: "parse_bbcode example_library ?t = ?t" by blast
  from T o n m' have b: "re_sub example_library Bold
        (''x'' @ ''[b]'' @ ''a[i]b[/i]'' @ close_tag Bold @ ''y'')
      = ''x'' @ replacement example_library Bold ''a[i]b[/i]'' @ re_sub example_library Bold ''y''"
    by blast
  from T have r: "replacement example_library Bold ''a[i]b[/i]'' = upper example_library ''a[i]b[/i]''"
    by blast
  from T have app: "upper example_library ([CHR 0xE9] @ [CHR 0xDF])
      = upper example_library [CHR 0xE9] @ upper example_library [CHR 0xDF]" by blast
  from T e have u1: "upper example_library [CHR 0xE9] = upper_latin1 example_library (CHR 0xE9)"
    by blast
  from T2 s have u2: "upper example_library [CHR 0xDF] = upper_latin1 example_library (CHR 0xDF)"
    by blast
  from b r have "re_sub example_library Bold ''x[b]a[i]b[/i][/b]y'' = ''xA[I]B[/I]y''"
    by (simp add: z ex_upper)
  moreover from app u1 u2 tb
  have "upper example_library [CHR 0xE9, CHR 0xDF] = [CHR 0xC9, CHR ''S'', CHR ''S'']"
    by simp
  ultimately show ?thesis using t by blast
qed

text \<open>
  C8. Each pattern is matched lazily, not greedily, and across lines. When a pattern
  matches, the captured text ends at the nearest closing tag after the opening tag: no
  closing tag starts inside it. The other way round, after an opening tag any text \<open>g\<close>
  in which no closing tag starts, whatever characters it holds (line breaks too), is
  captured whole up to the closing tag that follows it.
\<close>

theorem search_nearest_closing_tag:
  "(search p s = Some (b, g, a) \<longrightarrow>
      (\<exists>tg. s = b @ tg @ g @ close_tag p @ a \<and> open_tag p tg = Some [])
      \<and> (\<forall>k<length g. \<not> prefix (close_tag p) (drop k (g @ close_tag p @ a))))
   \<and> (open_tag p tg = Some []
        \<and> (\<forall>k<length g'. \<not> prefix (close_tag p) (drop k (g' @ close_tag p @ a')))
      \<longrightarrow> search p (tg @ g' @ close_tag p @ a') = Some ([], g', a'))"
proof (intro conjI impI)
  assume "search p s = Some (b, g, a)"
  then show "\<exists>tg. s = b @ tg @ g @ close_tag p @ a \<and> open_tag p tg = Some []"
    and "\<forall>k<length g. \<not> prefix (close_tag p) (drop k (g @ close_tag p @ a))"
    by (rule search_Some_span)+
next
  assume h: "open_tag p tg = Some []
        \<and> (\<forall>k<length g'. \<not> prefix (close_tag p) (drop k (g' @ close_tag p @ a')))"
  then have "match_at p (tg @ g' @ close_tag p @ a') = Some (g', a')"
    using match_at_span by blast
  then show "search p (tg @ g' @ close_tag p @ a') = Some ([], g', a')"
    by (rule search_at_match)
qed

theorem search_nearest_closing_tag_witness:
  "(\<exists>tg. ''[b]a[/b]x[b]c[/b]'' = [] @ tg @ ''a'' @ ''[/b]'' @ ''x[b]c[/b]''
         \<and> open_tag Bold tg = Some [])
   \<and> search Bold (''[b]'' @ [CHR ''a'', CHR 0x0A, CHR ''b''] @ ''[/b]'' @ ''!'')
       = Some ([], [CHR ''a'', CHR 0x0A, CHR ''b''], ''!'')"
proof -
  have o: "open_tag Bold ''[b]'' = Some []" by simp
  have n: "\<forall>k<length [CHR ''a'', CHR 0x0A, CHR ''b''].
      \<not> prefix (close_tag Bold) (drop k ([CHR ''a'', CHR 0x0A, CHR ''b''] @ close_tag Bold @ ''!''))"
    using no_close_inside [OF ex_multiline] by blast
  from search_nearest_closing_tag
    [of Bold "''[b]a[/b]x[b]c[/b]''" "[]" "''a''" "''x[b]c[/b]''" "''[b]''"
      "[CHR ''a'', CHR 0x0A, CHR ''b'']" "''!''"] ex_search o n
  show ?thesis by simp
qed

text \<open>
  The claim as written (the captured text runs to the last closing tag) fails: on
  \<open>[b]a[/b]x[b]c[/b]\<close> the first match captures \<open>a\<close>, not \<open>a[/b]x[b]c\<close>, and the
  text between the two spans stays in lower case.
\<close>

theorem greedy_match_counterexample:
  "search Bold ''[b]a[/b]x[b]c[/b]'' = Some ([], ''a'', ''x[b]c[/b]'')
   \<and> search Bold ''[b]a[/b]x[b]c[/b]'' \<noteq> Some ([], ''a[/b]x[b]c'', [])
   \<and> parse_bbcode example_library ''[b]a[/b]x[b]c[/b]'' = ''AxC''"
  by code_simp

section \<open>\<open>ChatMonitor\<close>\<close>

definition get_text :: "string list \<Rightarrow> string" where
  \<comment> \<open>\<open>elem.get_text(strip=True)\<close>: every text node stripped, the empty ones dropped, the
      rest joined with nothing between them.\<close>
  "get_text nodes = concat (filter (\<lambda>s. s \<noteq> []) (map strip nodes))"

definition two_digits :: "nat \<Rightarrow> string" where
  "two_digits n = [char_of (48 + n div 10 mod 10), char_of (48 + n mod 10)]"

definition strftime :: "datetime \<Rightarrow> string" where
  \<comment> \<open>\<open>dt.strftime("%H:%M:%S")\<close>\<close>
  "strftime dt = two_digits (hour dt) @ '':'' @ two_digits (minute dt) @ '':''
                  @ two_digits (second dt)"

definition extract_fields :: "library \<Rightarrow> string \<Rightarrow> error + (string \<times> string \<times> string) option" where
  \<comment> \<open>Lines 134 to 150 of \<open>process_messages\<close>: the fields read from one fragment,
      \<open>(display_time, username, content)\<close>, or \<open>None\<close> at the \<open>continue\<close> of line 150.\<close>
  "extract_fields L msg_html =
     (case BeautifulSoup L msg_html of
        Inl e \<Rightarrow> Inl e
      | Inr soup \<Rightarrow>
          (let username = (case username_elem soup of Some el \<Rightarrow> get_text el | None \<Rightarrow> []);
               display_time =
                 (case time_elem soup of
                    Some (Some title) \<Rightarrow>
                      (let timestamp = strip title in
                       case fromisoformat L timestamp of
                         Some dt \<Rightarrow> strftime dt
                       | None \<Rightarrow> timestamp)
                  | _ \<Rightarrow> ''Unknown time'');
               content = (case content_elem soup of Some el \<Rightarrow> get_text el | None \<Rightarrow> [])
           in if content = [] then Inr None
              else Inr (Some (display_time, username, content))))"

text \<open>
  The monitor: the set \<open>seen_messages\<close>, the records put on the queue (oldest first; the
  consumer is not part of this model), the messages given to \<open>logging.error\<close>, and the
  calls of \<open>seen_messages.add\<close> and \<open>queue.put\<close> in the order they were made.
\<close>

datatype effect = Add string | Put "string \<times> string \<times> string"

record monitor =
  seen_messages :: "string set"
  queue :: "(string \<times> string \<times> string) list"
  error_log :: "string list"
  effects :: "effect list"

definition ChatMonitor_init :: monitor where
  \<comment> \<open>\<open>ChatMonitor.__init__\<close> with the empty \<open>chat_queue\<close> of line 58.\<close>
  "ChatMonitor_init = \<lparr>seen_messages = {}, queue = [], error_log = [], effects = []\<rparr>"

definition seen_add :: "string \<Rightarrow> monitor \<Rightarrow> monitor" where
  "seen_add k st = st\<lparr>seen_messages := insert k (seen_messages st), effects := effects st @ [Add k]\<rparr>"

definition queue_put :: "string \<times> string \<times> string \<Rightarrow> monitor \<Rightarrow> monitor" where
  "queue_put r st = st\<lparr>queue := queue st @ [r], effects := effects st @ [Put r]\<rparr>"

definition log_error :: "error \<Rightarrow> monitor \<Rightarrow> monitor" where
  \<comment> \<open>Line 158; \<open>Fore.RED\<close> is the escape sequence \<open>ESC [31m\<close>.\<close>
  "log_error e st =
     (case e of Error msg \<Rightarrow>
        st\<lparr>error_log := error_log st @ [CHR 0x1B # ''[31m'' @ ''Error processing messages: '' @ msg]\<rparr>)"

definition unique_key :: "string \<Rightarrow> string \<Rightarrow> string" where
  \<comment> \<open>Line 151: \<open>f"{display_time}-{content}"\<close>\<close>
  "unique_key display_time content = display_time @ ''-'' @ content"

fun process_fragments :: "library \<Rightarrow> string list \<Rightarrow> monitor \<Rightarrow> error option \<times> monitor" where
  \<comment> \<open>The \<open>for\<close> loop of lines 133 to 156. An exception leaves the loop; what was added
      and put before it stays.\<close>
  "process_fragments L [] st = (None, st)"
| "process_fragments L (msg_html # rest) st =
     (case extract_fields L msg_html of
        Inl e \<Rightarrow> (Some e, st)
      | Inr None \<Rightarrow> process_fragments L rest st
      | Inr (Some (display_time, username, content)) \<Rightarrow>
          if unique_key display_time content \<in> seen_messages st then process_fragments L rest st
          else
            process_fragments L rest
              (queue_put (display_time, username, parse_bbcode L content)
                 (seen_add (unique_key display_time content) st)))"

definition process_messages :: "library \<Rightarrow> error + string list \<Rightarrow> monitor \<Rightarrow> monitor" where
  \<comment> \<open>Lines 131 to 158. \<open>new_msgs_html\<close> is what \<open>execute_script\<close> does: it raises or
      returns the fragments (a result that is no list raises at the \<open>for\<close>, which is the
      same case). One \<open>try\<close> spans the call and the whole loop.\<close>
  "process_messages L new_msgs_html st =
     (case new_msgs_html of
        Inl e \<Rightarrow> log_error e st
      | Inr msgs \<Rightarrow>
          (case process_fragments L msgs st of
             (None, st') \<Rightarrow> st'
           | (Some e, st') \<Rightarrow> log_error e st'))"

fun monitor_live :: "library \<Rightarrow> (error + string list) list \<Rightarrow> monitor \<Rightarrow> monitor" where
  \<comment> \<open>The \<open>while True\<close> loop of lines 166 to 168, run for as many iterations as there
      are results of the probe in the list.\<close>
  "monitor_live L [] st = st"
| "monitor_live L (new_msgs_html # polls) st = monitor_live L polls (process_messages L new_msgs_html st)"





definition fingerprint :: "string \<times> string \<times> string \<Rightarrow> string" where
  \<comment> \<open>The key of line 151, from the fields read from one fragment.\<close>
  "fingerprint x = (case x of (display_time, username, content) \<Rightarrow> unique_key display_time content)"

definition chat_record :: "library \<Rightarrow> string \<times> string \<times> string \<Rightarrow> string \<times> string \<times> string" where
  \<comment> \<open>The tuple of line 156, from the fields read from one fragment.\<close>
  "chat_record L x =
     (case x of (display_time, username, content) \<Rightarrow> (display_time, username, parse_bbcode L content))"

lemma ex_extract_alice:
  "extract_fields example_library alice = Inr (Some (''10:00:00'', ''alice'', ''[b]hello[/b] world''))"
  by code_simp

lemma ex_extract_bob:
  "extract_fields example_library bob = Inr (Some (''10:00:00'', ''bob'', ''[b]hello[/b] world''))"
  by code_simp

lemma ex_extract_carol:
  "extract_fields example_library carol = Inr (Some (''10:00:00'', ''carol'', ''HELLO world''))"
  by code_simp

lemma ex_extract_dave:
  "extract_fields example_library dave = Inr (Some (''soon'', ''dave'', ''hi''))"
  by code_simp

lemma ex_extract_erin: "extract_fields example_library erin = Inr None"
  by code_simp

lemma ex_extract_bad:
  "extract_fields example_library rejected = Inl (Error ''markup rejected by the parser'')"
  by code_simp

lemma ex_extract_li: "extract_fields example_library ''<li>'' = Inr None"
  by code_simp

lemma ex_soup_alice:
  "BeautifulSoup example_library alice =
     Inr \<lparr>username_elem = Some [''alice''], time_elem = Some (Some ''2024-01-01T10:00:00''),
          content_elem = Some [''[b]hello[/b] world'']\<rparr>"
  by code_simp

lemma ex_hello: "parse_bbcode L ''[b]hello[/b] world'' = ''HELLO world''"
  "parse_bbcode L ''HELLO world'' = ''HELLO world''"
  "parse_bbcode L ''hi'' = ''hi''"
  by code_simp+

section \<open>Properties of the extraction\<close>

lemma strip_Nil_iff: "strip s = [] \<longleftrightarrow> (\<forall>c\<in>set s. isspace c)"
proof -
  have "strip s = [] \<longleftrightarrow> (\<forall>c\<in>set (dropWhile isspace s). isspace c)"
    by (simp add: strip_def dropWhile_eq_Nil_conv)
  also have "\<dots> \<longleftrightarrow> dropWhile isspace s = []"
  proof
    assume h: "\<forall>c\<in>set (dropWhile isspace s). isspace c"
    show "dropWhile isspace s = []"
    proof (rule ccontr)
      assume n: "dropWhile isspace s \<noteq> []"
      then have "\<not> isspace (hd (dropWhile isspace s))" by (rule hd_dropWhile)
      moreover from n have "hd (dropWhile isspace s) \<in> set (dropWhile isspace s)" by simp
      ultimately show False using h by blast
    qed
  next
    assume d: "dropWhile isspace s = []"
    show "\<forall>c\<in>set (dropWhile isspace s). isspace c" unfolding d by simp
  qed
  also have "\<dots> \<longleftrightarrow> (\<forall>c\<in>set s. isspace c)"
    by (simp add: dropWhile_eq_Nil_conv)
  finally show ?thesis .
qed

lemma get_text_Nil_iff: "get_text el = [] \<longleftrightarrow> strip (concat el) = []"
proof -
  have "get_text el = [] \<longleftrightarrow> (\<forall>s\<in>set el. strip s = [])"
    by (auto simp: get_text_def)
  also have "\<dots> \<longleftrightarrow> strip (concat el) = []"
    by (auto simp: strip_Nil_iff)
  finally show ?thesis .
qed

lemma get_text_single: "get_text [s] = strip s"
  by (simp add: get_text_def)

lemma ex_strftime: "strftime \<lparr>hour = 9, minute = 5, second = 7\<rparr> = ''09:05:07''"
  by code_simp

text \<open>
  C2. For a fragment that parses: when the body element is absent, or its text is empty
  after trimming, no record is read; otherwise a record is read whose body is the text of
  the body element. In that record the display time is \<open>HH:MM:SS\<close> of the parsed
  timestamp when the trimmed \<open>title\<close> attribute parses, the trimmed attribute (not the
  attribute as it stands) when it does not parse, and \<open>Unknown time\<close> when the element or
  the attribute is absent; the author is the trimmed author text, empty when the author
  element is absent. The text of an element with one text node is that node trimmed.
\<close>

theorem extract_fields_cases:
  assumes "BeautifulSoup L msg_html = Inr sp"
  shows
    "(content_elem sp = None \<longrightarrow> extract_fields L msg_html = Inr None)
     \<and> (\<forall>el. content_elem sp = Some el \<and> strip (concat el) = []
           \<longrightarrow> extract_fields L msg_html = Inr None)
     \<and> (\<forall>el. content_elem sp = Some el \<and> strip (concat el) \<noteq> []
           \<longrightarrow> (\<exists>t u. extract_fields L msg_html = Inr (Some (t, u, get_text el))))
     \<and> (\<forall>t u c. extract_fields L msg_html = Inr (Some (t, u, c)) \<longrightarrow>
           (\<forall>title dt. time_elem sp = Some (Some title) \<and> fromisoformat L (strip title) = Some dt
              \<longrightarrow> t = strftime dt)
         \<and> (\<forall>title. time_elem sp = Some (Some title) \<and> fromisoformat L (strip title) = None
              \<longrightarrow> t = strip title)
         \<and> (time_elem sp = None \<or> time_elem sp = Some None \<longrightarrow> t = ''Unknown time'')
         \<and> (username_elem sp = None \<longrightarrow> u = [])
         \<and> (\<forall>el. username_elem sp = Some el \<longrightarrow> u = get_text el))
     \<and> (\<forall>s. get_text [s] = strip s)
     \<and> strftime \<lparr>hour = 9, minute = 5, second = 7\<rparr> = ''09:05:07''"
proof -
  have a: "content_elem sp = None \<longrightarrow> extract_fields L msg_html = Inr None"
    using assms by (simp add: extract_fields_def)
  have b: "\<forall>el. content_elem sp = Some el \<and> strip (concat el) = []
           \<longrightarrow> extract_fields L msg_html = Inr None"
    using assms by (simp add: extract_fields_def get_text_Nil_iff)
  have c: "\<forall>el. content_elem sp = Some el \<and> strip (concat el) \<noteq> []
           \<longrightarrow> (\<exists>t u. extract_fields L msg_html = Inr (Some (t, u, get_text el)))"
    using assms by (simp add: extract_fields_def get_text_Nil_iff Let_def)
  have d: "\<forall>t u c. extract_fields L msg_html = Inr (Some (t, u, c)) \<longrightarrow>
           (\<forall>title dt. time_elem sp = Some (Some title) \<and> fromisoformat L (strip title) = Some dt
              \<longrightarrow> t = strftime dt)
         \<and> (\<forall>title. time_elem sp = Some (Some title) \<and> fromisoformat L (strip title) = None
              \<longrightarrow> t = strip title)
         \<and> (time_elem sp = None \<or> time_elem sp = Some None \<longrightarrow> t = ''Unknown time'')
         \<and> (username_elem sp = None \<longrightarrow> u = [])
         \<and> (\<forall>el. username_elem sp = Some el \<longrightarrow> u = get_text el)"
    using assms by (auto simp: extract_fields_def Let_def split: if_splits)
  from a b c d show ?thesis
    by (simp only: get_text_single ex_strftime simp_thms)
qed

theorem extract_fields_cases_witness:
  "(\<exists>t u. extract_fields example_library alice
             = Inr (Some (t, u, get_text [''[b]hello[/b] world''])))
   \<and> extract_fields example_library alice
       = Inr (Some (strftime \<lparr>hour = 10, minute = 0, second = 0\<rparr>, get_text [''alice''],
                    ''[b]hello[/b] world''))"
proof -
  note T = extract_fields_cases [OF ex_soup_alice]
  have n: "strip (concat [''[b]hello[/b] world'']) \<noteq> []" by code_simp
  have p: "fromisoformat example_library (strip ''2024-01-01T10:00:00'')
             = Some \<lparr>hour = 10, minute = 0, second = 0\<rparr>" by code_simp
  have g: "get_text [''[b]hello[/b] world''] = ''[b]hello[/b] world''" by code_simp
  note c = T [THEN conjunct2, THEN conjunct2, THEN conjunct1, rule_format,
      of "[''[b]hello[/b] world'']"]
  note d = T [THEN conjunct2, THEN conjunct2, THEN conjunct2, THEN conjunct1, rule_format]
  from c n have e: "\<exists>t u. extract_fields example_library alice
             = Inr (Some (t, u, get_text [''[b]hello[/b] world'']))"
    by simp
  then obtain t u where tu: "extract_fields example_library alice
             = Inr (Some (t, u, get_text [''[b]hello[/b] world'']))" by blast
  from d [OF tu] p have "t = strftime \<lparr>hour = 10, minute = 0, second = 0\<rparr>" by simp
  moreover from d [OF tu] have "u = get_text [''alice'']" by simp
  ultimately show ?thesis using e tu g by simp
qed

text \<open>
  The claim as written (an attribute that does not parse is shown verbatim) fails: the
  \<open>title\<close> attribute \<open>'' soon ''\<close> does not parse, and the display time is \<open>''soon''\<close>,
  without the two spaces.
\<close>

theorem unparsable_timestamp_verbatim_counterexample:
  "BeautifulSoup example_library dave
     = Inr \<lparr>username_elem = Some [''dave''], time_elem = Some (Some '' soon ''),
            content_elem = Some [''hi'']\<rparr>
   \<and> fromisoformat example_library '' soon '' = None
   \<and> fromisoformat example_library (strip '' soon '') = None
   \<and> extract_fields example_library dave = Inr (Some (''soon'', ''dave'', ''hi''))
   \<and> ''soon'' \<noteq> '' soon ''"
  by code_simp

section \<open>Properties of the ingestion\<close>











lemma process_fragments_append:
  "process_fragments L (xs @ ys) st =
     (case process_fragments L xs st of
        (None, st') \<Rightarrow> process_fragments L ys st'
      | (Some e, st') \<Rightarrow> (Some e, st'))"
  by (induction xs arbitrary: st) (auto split: sum.splits option.splits prod.splits)

lemma process_fragments_no_raise:
  "\<forall>m\<in>set pre. \<exists>r. extract_fields L m = Inr r \<Longrightarrow> fst (process_fragments L pre st) = None"
  by (induction pre arbitrary: st) (auto split: sum.splits option.splits)

lemma process_single:
  assumes "extract_fields L m = Inr (Some (t, u, c))"
  shows "process_messages L (Inr [m]) st =
    (if unique_key t c \<in> seen_messages st then st
     else st\<lparr>seen_messages := insert (unique_key t c) (seen_messages st),
             queue := queue st @ [(t, u, parse_bbcode L c)],
             effects := effects st @ [Add (unique_key t c), Put (t, u, parse_bbcode L c)]\<rparr>)"
  using assms by (simp add: process_messages_def queue_put_def seen_add_def)


lemma process_fragments_fresh:
  assumes "map (extract_fields L) msgs = map (\<lambda>x. Inr (Some x)) xs"
    and "distinct (map fingerprint xs)"
    and "\<forall>x\<in>set xs. fingerprint x \<notin> seen_messages st"
  shows "fst (process_fragments L msgs st) = None
    \<and> queue (snd (process_fragments L msgs st)) = queue st @ map (chat_record L) xs
    \<and> seen_messages (snd (process_fragments L msgs st)) = seen_messages st \<union> set (map fingerprint xs)"
  using assms
proof (induction msgs arbitrary: xs st)
  case Nil
  then show ?case by simp
next
  case (Cons m msgs)
  from Cons.prems(1) obtain x xs' where xs: "xs = x # xs'"
    and m: "extract_fields L m = Inr (Some x)"
    and rest: "map (extract_fields L) msgs = map (\<lambda>x. Inr (Some x)) xs'"
    by (cases xs) auto
  obtain t u c where x: "x = (t, u, c)" by (cases x)
  let ?st1 = "queue_put (t, u, parse_bbcode L c) (seen_add (unique_key t c) st)"
  from Cons.prems(3) xs x have fresh: "unique_key t c \<notin> seen_messages st"
    by (simp add: fingerprint_def)
  with m x have step: "process_fragments L (m # msgs) st = process_fragments L msgs ?st1"
    by simp
  from Cons.prems(2) xs have d: "distinct (map fingerprint xs')"
    and n0: "fingerprint x \<notin> fingerprint ` set xs'" by simp_all
  have nx: "\<forall>y\<in>set xs'. fingerprint y \<noteq> fingerprint x"
  proof (intro ballI notI)
    fix y assume "y \<in> set xs'" and "fingerprint y = fingerprint x"
    then have "fingerprint x \<in> fingerprint ` set xs'" by (metis imageI)
    with n0 show False by contradiction
  qed
  have s1: "seen_messages ?st1 = insert (fingerprint x) (seen_messages st)"
    and q1: "queue ?st1 = queue st @ [chat_record L x]"
    by (simp_all add: queue_put_def seen_add_def x fingerprint_def chat_record_def)
  from Cons.prems(3) xs nx have "\<forall>y\<in>set xs'. fingerprint y \<notin> seen_messages ?st1"
    unfolding s1 by auto
  from Cons.IH [OF rest d this] show ?case
    unfolding step s1 q1 xs by auto
qed



text \<open>
  C5. The key is computed from the display time and the body as read from the fragment,
  before \<open>parse_bbcode\<close> is applied; the record put on the queue carries the normalised
  body. With equal display times two keys are equal exactly when the bodies as read are
  equal: a second fragment with the same body as read is dropped, and one with another
  body is put on the queue too, whatever the two bodies normalise to.
\<close>

theorem key_from_body_as_read:
  assumes "extract_fields L m = Inr (Some (t, u, c))"
    and "extract_fields L m2 = Inr (Some (t, u2, c2))"
    and "unique_key t c \<notin> seen_messages st" and "unique_key t c2 \<notin> seen_messages st"
  shows "effects (process_messages L (Inr [m]) st)
           = effects st @ [Add (unique_key t c), Put (t, u, parse_bbcode L c)]
     \<and> (unique_key t c = unique_key t c2 \<longleftrightarrow> c = c2)
     \<and> queue (process_messages L (Inr [m, m2]) st)
         = (if c2 = c then queue st @ [(t, u, parse_bbcode L c)]
            else queue st @ [(t, u, parse_bbcode L c), (t, u2, parse_bbcode L c2)])"
  using assms
  by (simp add: process_messages_def queue_put_def seen_add_def unique_key_def)

theorem key_from_body_as_read_witness:
  "effects (process_messages example_library (Inr [alice]) ChatMonitor_init)
     = [Add ''10:00:00-[b]hello[/b] world'', Put (''10:00:00'', ''alice'', ''HELLO world'')]
   \<and> queue (process_messages example_library (Inr [alice, bob]) ChatMonitor_init)
     = [(''10:00:00'', ''alice'', ''HELLO world'')]"
  using key_from_body_as_read [OF ex_extract_alice ex_extract_bob, of ChatMonitor_init]
  by (simp add: ChatMonitor_init_def unique_key_def ex_hello)

text \<open>
  The claim as written (the key is derived from the normalised body) fails: the bodies
  \<open>[b]hello[/b] world\<close> and \<open>HELLO world\<close> normalise to the same text, the display
  times are equal, and the two keys differ, so both records reach the queue.
\<close>

theorem key_from_normalised_body_counterexample:
  "parse_bbcode example_library ''[b]hello[/b] world'' = parse_bbcode example_library ''HELLO world''
   \<and> extract_fields example_library alice
       = Inr (Some (''10:00:00'', ''alice'', ''[b]hello[/b] world''))
   \<and> extract_fields example_library carol
       = Inr (Some (''10:00:00'', ''carol'', ''HELLO world''))
   \<and> effects (process_messages example_library (Inr [alice, carol]) ChatMonitor_init)
       = [Add ''10:00:00-[b]hello[/b] world'', Put (''10:00:00'', ''alice'', ''HELLO world''),
          Add ''10:00:00-HELLO world'', Put (''10:00:00'', ''carol'', ''HELLO world'')]"
  by (simp add: ex_extract_alice ex_extract_carol ex_hello process_messages_def
      queue_put_def seen_add_def unique_key_def ChatMonitor_init_def)

text \<open>
  C6. When every fragment of a batch gives a record (none raises, none has an empty
  body), the keys are pairwise different and none was seen before, the records are put
  on the queue in the order of the fragments.
\<close>

theorem batch_order_preserved:
  assumes "map (extract_fields L) msgs = map (\<lambda>x. Inr (Some x)) xs"
    and "distinct (map fingerprint xs)"
    and "\<forall>x\<in>set xs. fingerprint x \<notin> seen_messages st"
  shows "queue (process_messages L (Inr msgs) st) = queue st @ map (chat_record L) xs"
proof -
  from process_fragments_fresh [OF assms]
  have "fst (process_fragments L msgs st) = None"
    and "queue (snd (process_fragments L msgs st)) = queue st @ map (chat_record L) xs"
    by blast+
  then show ?thesis
    by (cases "process_fragments L msgs st") (simp add: process_messages_def)
qed

theorem batch_order_preserved_witness:
  "queue (process_messages example_library (Inr [dave, carol, alice]) ChatMonitor_init)
     = [(''soon'', ''dave'', ''hi''), (''10:00:00'', ''carol'', ''HELLO world''),
        (''10:00:00'', ''alice'', ''HELLO world'')]"
proof -
  let ?xs = "[(''soon'', ''dave'', ''hi''), (''10:00:00'', ''carol'', ''HELLO world''),
              (''10:00:00'', ''alice'', ''[b]hello[/b] world'')]"
  have a: "map (extract_fields example_library) [dave, carol, alice] = map (\<lambda>x. Inr (Some x)) ?xs"
    by (simp add: ex_extract_alice ex_extract_carol ex_extract_dave)
  have b: "distinct (map fingerprint ?xs)"
    by (simp add: fingerprint_def unique_key_def)
  have c: "\<forall>x\<in>set ?xs. fingerprint x \<notin> seen_messages ChatMonitor_init"
    by (simp add: ChatMonitor_init_def)
  from batch_order_preserved [OF a b c] show ?thesis
    by (simp add: chat_record_def ex_hello ChatMonitor_init_def)
qed

text \<open>
  C7. An exception raised while a fragment is parsed is caught and logged, not
  propagated: it ends the batch. The fragments before it have had their effect, the
  fragment that raised and all the fragments after it in the batch are dropped, one
  message is added to the log, and the loop goes on with the next result of the probe.
\<close>

theorem exception_ends_batch:
  assumes "\<forall>m\<in>set pre. \<exists>r. extract_fields L m = Inr r"
    and "extract_fields L bad = Inl (Error msg)"
  shows "process_messages L (Inr (pre @ bad # rest)) st
           = log_error (Error msg) (process_messages L (Inr pre) st)
     \<and> log_error (Error msg) (process_messages L (Inr pre) st)
           = (process_messages L (Inr pre) st)
               \<lparr>error_log := error_log (process_messages L (Inr pre) st)
                  @ [CHR 0x1B # ''[31mError processing messages: '' @ msg]\<rparr>
     \<and> monitor_live L (Inr (pre @ bad # rest) # polls) st
           = monitor_live L polls (log_error (Error msg) (process_messages L (Inr pre) st))"
proof -
  obtain st' where pre: "process_fragments L pre st = (None, st')"
    using process_fragments_no_raise [OF assms(1), of st]
    by (cases "process_fragments L pre st") auto
  then have p: "process_messages L (Inr pre) st = st'"
    by (simp add: process_messages_def)
  from assms(2) have "process_fragments L (bad # rest) st' = (Some (Error msg), st')" by simp
  with pre have "process_fragments L (pre @ bad # rest) st = (Some (Error msg), st')"
    by (simp add: process_fragments_append)
  then have one: "process_messages L (Inr (pre @ bad # rest)) st = log_error (Error msg) st'"
    by (simp add: process_messages_def)
  then show ?thesis unfolding p by (simp add: log_error_def)
qed

theorem exception_ends_batch_witness:
  "queue (process_messages example_library (Inr ([alice] @ rejected # [carol])) ChatMonitor_init)
     = [(''10:00:00'', ''alice'', ''HELLO world'')]
   \<and> length (error_log
        (process_messages example_library (Inr ([alice] @ rejected # [carol])) ChatMonitor_init))
     = 1"
proof -
  have a: "\<forall>m\<in>set [alice]. \<exists>r. extract_fields example_library m = Inr r"
    by (simp add: ex_extract_alice)
  have p: "process_messages example_library (Inr [alice]) ChatMonitor_init
      = \<lparr>seen_messages = {''10:00:00-[b]hello[/b] world''},
          queue = [(''10:00:00'', ''alice'', ''HELLO world'')],
          error_log = [],
          effects = [Add ''10:00:00-[b]hello[/b] world'',
                     Put (''10:00:00'', ''alice'', ''HELLO world'')]\<rparr>"
    by (simp add: process_single [OF ex_extract_alice] ChatMonitor_init_def unique_key_def ex_hello)
  from exception_ends_batch [OF a ex_extract_bad, of "[carol]" ChatMonitor_init]
  show ?thesis by (simp add: p)
qed

text \<open>
  The claim as written (only the fragment that raised is skipped) fails: a fragment
  that gives a record when it is processed alone is not put on the queue when it comes
  after a fragment the parser rejects. (After a fragment with no body, such as \<open><li>\<close>,
  which raises nothing and is skipped at line 150, it is put on the queue.)
\<close>

theorem exception_skips_one_fragment_counterexample:
  "queue (process_messages example_library (Inr [carol]) ChatMonitor_init)
     = [(''10:00:00'', ''carol'', ''HELLO world'')]
   \<and> extract_fields example_library rejected = Inl (Error ''markup rejected by the parser'')
   \<and> queue (process_messages example_library (Inr [rejected, carol]) ChatMonitor_init) = []
   \<and> seen_messages (process_messages example_library (Inr [rejected, carol]) ChatMonitor_init) = {}
   \<and> queue (process_messages example_library (Inr [''<li>'', carol]) ChatMonitor_init)
       = [(''10:00:00'', ''carol'', ''HELLO world'')]"
  by (simp add: ex_extract_bad ex_extract_li ex_extract_carol ex_hello process_messages_def
      queue_put_def seen_add_def unique_key_def ChatMonitor_init_def log_error_def)

end
